theory Spec2Isabelle
  imports Main
begin

section \<open>Data model\<close>

text \<open>
  The firing mode of a subject, as \<open>gxSubject::Fire\<close> tests it:
  \<open>on\<close> (enabled), \<open>queue\<close> (suspended, events are queued) and \<open>off\<close>
  (suspended, events are dropped).
\<close>

datatype gxFiringMode = on | queue | off

text \<open>
  A callback is the memento of a delegate made by
  \<open>MakeDelegate( this, &ObserverClassName::Handler )\<close>: the address of the observer
  and the address of its handler. Addresses are natural numbers. The empty memento (the
  default second argument of \<open>gxSubject::Fire\<close>, "no specific callback was requested")
  is \<open>None\<close> of \<open>gxCallback option\<close>.
\<close>

record gxCallback =
  m_pthis :: nat
  m_pFunction :: nat

definition MakeDelegate :: "nat \<Rightarrow> nat \<Rightarrow> gxCallback" where
  "MakeDelegate aObj aHandler = \<lparr>m_pthis = aObj, m_pFunction = aHandler\<rparr>"

text \<open>
  Handlers are code of the observers. One invocation \<open>mDelegate( m1 )\<close> is recorded as
  the event it was made for, the memento that was invoked and the argument passed. What
  a handler does is outside the model; handlers that call back into the subject are not
  covered.
\<close>

datatype 'p gxCall = gxCall (call_event: nat) (call_target: gxCallback) (call_arg: 'p)

text \<open>
  An event (\<open>gxEvent1< t1 >\<close>): the registered callbacks, the delegate used to
  invoke them and the cached argument. Events of more parameters cache a tuple.
\<close>

record 'p gxEvent =
  mCallbacks :: "gxCallback list"
  mDelegate :: "gxCallback option"
  m1 :: 'p

text \<open>
  A subject: the firing mode and the event queue of \<open>gxSubject\<close>, the events of the
  derived class (each event is a member variable, named here by its address), the other
  members of the derived class (what a getter of a bound event reads), and the
  invocations of handlers made so far.
\<close>

record ('u, 'p) gxSubject =
  mFiringMode :: gxFiringMode
  mEventQueue :: "nat list"
  events :: "nat \<Rightarrow> 'p gxEvent"
  members :: 'u
  invoked :: "'p gxCall list"

section \<open>Events\<close>

text \<open>\<open>gxEvent1::SetParams( t1 a1 )\<close>: \<open>m1 = a1\<close>, on the event \<open>e\<close> of the subject.\<close>

definition SetParams :: "nat \<Rightarrow> 'p \<Rightarrow> ('u, 'p) gxSubject \<Rightarrow> ('u, 'p) gxSubject" where
  "SetParams e a1 s = s\<lparr>events := (events s)(e := (events s e)\<lparr>m1 := a1\<rparr>)\<rparr>"

text \<open>
  \<open>gxEvent1::Fire( gxCallback &aCallback )\<close>:
  \<open>mDelegate.SetMemento( aCallback ); mDelegate( m1 );\<close>
\<close>

definition gxEvent1_Fire :: "nat \<Rightarrow> gxCallback \<Rightarrow> ('u, 'p) gxSubject \<Rightarrow> ('u, 'p) gxSubject" where
  "gxEvent1_Fire e aCallback s =
     s\<lparr>events := (events s)(e := (events s e)\<lparr>mDelegate := Some aCallback\<rparr>),
       invoked := invoked s @ [gxCall e aCallback (m1 (events s e))]\<rparr>"

text \<open>
  \<open>gxEvent::Fire()\<close>: the loop
  \<open>for( iCallback = mCallbacks.begin(); iCallback != mCallbacks.end(); ++iCallback )
  Fire( *iCallback );\<close>
\<close>

fun for_each_callback :: "nat \<Rightarrow> gxCallback list \<Rightarrow> ('u, 'p) gxSubject \<Rightarrow> ('u, 'p) gxSubject" where
  "for_each_callback e [] s = s"
| "for_each_callback e (iCallback # rest) s = for_each_callback e rest (gxEvent1_Fire e iCallback s)"

definition gxEvent_Fire :: "nat \<Rightarrow> ('u, 'p) gxSubject \<Rightarrow> ('u, 'p) gxSubject" where
  "gxEvent_Fire e s = for_each_callback e (mCallbacks (events s e)) s"

text \<open>
  Modelled from the spec: how \<open>gxEvent\<close> compares callbacks is not among the sources.
  "Equality is defined by observer identity (the instance address), not handler
  identity": an observer is registered when some callback of the list is bound to it.
\<close>

definition registered :: "nat \<Rightarrow> gxCallback list \<Rightarrow> bool" where
  "registered aObj cbs = (aObj \<in> set (map m_pthis cbs))"

text \<open>
  Modelled from the spec: \<open>gxEvent::Subscribe\<close>, the registration of a callback, is
  not among the sources. "If an entry with the same observer identity already exists, the
  call is a no-op. Otherwise appends to the ordered set."
\<close>

definition gxEvent_Subscribe :: "gxCallback \<Rightarrow> 'p gxEvent \<Rightarrow> 'p gxEvent" where
  "gxEvent_Subscribe aCallback ev =
     (if registered (m_pthis aCallback) (mCallbacks ev) then ev
      else ev\<lparr>mCallbacks := mCallbacks ev @ [aCallback]\<rparr>)"

text \<open>
  Modelled from the spec: \<open>gxEvent::Unsubscribe\<close> is not among the sources. "Removes
  the matching entry if present; no-op (not an error) if absent."
\<close>

definition gxEvent_Unsubscribe :: "nat \<Rightarrow> 'p gxEvent \<Rightarrow> 'p gxEvent" where
  "gxEvent_Unsubscribe aObj ev = ev\<lparr>mCallbacks := filter (\<lambda>c. m_pthis c \<noteq> aObj) (mCallbacks ev)\<rparr>"

section \<open>Subjects\<close>

text \<open>
  Modelled from the spec: the constructor of \<open>gxSubject\<close> is not among the sources.
  \<open>Enabled\<close> is the initial state, the queue is empty and no event has a callback;
  \<open>a0\<close> stands for the value of the argument caches before the first \<open>SetParams\<close>.
\<close>

definition gxSubject_new :: "'u \<Rightarrow> 'p \<Rightarrow> ('u, 'p) gxSubject" where
  "gxSubject_new u a0 =
     \<lparr>mFiringMode = on, mEventQueue = [],
      events = (\<lambda>e. \<lparr>mCallbacks = [], mDelegate = None, m1 = a0\<rparr>),
      members = u, invoked = []\<rparr>"

text \<open>
  Modelled from the spec: \<open>gxSubject::Subscribe\<close> is not among the sources; it
  registers the callback on the event ("an observer calls Subject.subscribe(event,
  callback), then Event.register(callback)").
\<close>

definition Subscribe :: "nat \<Rightarrow> gxCallback \<Rightarrow> ('u, 'p) gxSubject \<Rightarrow> ('u, 'p) gxSubject" where
  "Subscribe e aCallback s = s\<lparr>events := (events s)(e := gxEvent_Subscribe aCallback (events s e))\<rparr>"

text \<open>
  Modelled from the spec: \<open>gxSubject::Unsubscribe\<close> is not among the sources; it
  unregisters the observer on the event ("unregisters; no-op if not registered").
\<close>

definition Unsubscribe :: "nat \<Rightarrow> nat \<Rightarrow> ('u, 'p) gxSubject \<Rightarrow> ('u, 'p) gxSubject" where
  "Unsubscribe e aObj s = s\<lparr>events := (events s)(e := gxEvent_Unsubscribe aObj (events s e))\<rparr>"

text \<open>
  Modelled from the spec: \<open>gxSubject::QueueEvent\<close> is not among the sources. "Add
  eventId to the queue only if not already present."
\<close>

definition QueueEvent :: "nat \<Rightarrow> ('u, 'p) gxSubject \<Rightarrow> ('u, 'p) gxSubject" where
  "QueueEvent e s = (if e \<in> set (mEventQueue s) then s else s\<lparr>mEventQueue := mEventQueue s @ [e]\<rparr>)"

text \<open>
  \<open>gxSubject::Fire( gxEvent &aEvent, gxCallback aCallback )\<close>:
  \<open>if ( mFiringMode == on ) { aCallback.empty() ? aEvent.Fire() : aEvent.Fire( aCallback ); }
  else if ( mFiringMode == queue ) { QueueEvent( aEvent ); }\<close>
\<close>

definition gxSubject_Fire :: "nat \<Rightarrow> gxCallback option \<Rightarrow> ('u, 'p) gxSubject \<Rightarrow> ('u, 'p) gxSubject" where
  "gxSubject_Fire e aCallback s =
     (if mFiringMode s = on then
        (case aCallback of None \<Rightarrow> gxEvent_Fire e s | Some c \<Rightarrow> gxEvent1_Fire e c s)
      else if mFiringMode s = queue then QueueEvent e s
      else s)"

text \<open>
  Modelled from the spec: \<open>gxSubject::SuspendEvents\<close> is not among the sources.
  "suspend(queueing=true): to SuspendedQueueing"; "suspend(queueing=false): any state to
  SuspendedDropping; clears any pending queue without firing it."
\<close>

definition SuspendEvents :: "bool \<Rightarrow> ('u, 'p) gxSubject \<Rightarrow> ('u, 'p) gxSubject" where
  "SuspendEvents aQueueEvents s =
     (if aQueueEvents then s\<lparr>mFiringMode := queue\<rparr>
      else s\<lparr>mFiringMode := off, mEventQueue := []\<rparr>)"

text \<open>
  Modelled from the spec: the loop of \<open>gxSubject::ResumeEvents\<close> over the queue is not
  among the sources. "Process the pending queue strictly in the order event identities
  were first enqueued. For each identity, call that Event's fireAll() exactly once using
  its current last-params."
\<close>

fun drain :: "nat list \<Rightarrow> ('u, 'p) gxSubject \<Rightarrow> ('u, 'p) gxSubject" where
  "drain [] s = s"
| "drain (e # es) s = drain es (gxEvent_Fire e s)"

text \<open>
  Modelled from the spec: \<open>gxSubject::ResumeEvents\<close> is not among the sources. "If
  leaving SuspendedQueueing, first drains the queue. After processing all entries, clear
  the queue and set mode to Enabled. If leaving SuspendedDropping, simply clears state and
  transitions. resume() while already Enabled is a no-op."
\<close>

definition ResumeEvents :: "('u, 'p) gxSubject \<Rightarrow> ('u, 'p) gxSubject" where
  "ResumeEvents s =
     (case mFiringMode s of
        on \<Rightarrow> s
      | queue \<Rightarrow> (drain (mEventQueue s) s)\<lparr>mFiringMode := on, mEventQueue := []\<rparr>
      | off \<Rightarrow> s\<lparr>mFiringMode := on, mEventQueue := []\<rparr>)"

section \<open>The methods generated for each event\<close>

text \<open>
  \<open>gxDefineEvent( evAge, int )\<close> generates
  \<open>evAgeSubscribe( aDelegate ) { Subscribe( evAge, aDelegate.GetMemento() ); }\<close>,
  \<open>evAgeUnsubscribe( aObj ) { Unsubscribe( evAge, aObj ); }\<close> and
  \<open>Fire( aEvent, a1 ) { aEvent.SetParams( a1 ); gxSubject::Fire( aEvent ); }\<close>.
  The event is given by its address \<open>e\<close>.
\<close>

definition evAgeSubscribe :: "nat \<Rightarrow> gxCallback \<Rightarrow> ('u, 'p) gxSubject \<Rightarrow> ('u, 'p) gxSubject" where
  "evAgeSubscribe e aDelegate s = Subscribe e aDelegate s"

definition evAgeUnsubscribe :: "nat \<Rightarrow> nat \<Rightarrow> ('u, 'p) gxSubject \<Rightarrow> ('u, 'p) gxSubject" where
  "evAgeUnsubscribe e aObj s = Unsubscribe e aObj s"

definition Fire :: "nat \<Rightarrow> 'p \<Rightarrow> ('u, 'p) gxSubject \<Rightarrow> ('u, 'p) gxSubject" where
  "Fire e a1 s = gxSubject_Fire e None (SetParams e a1 s)"

text \<open>
  \<open>gxDefineBoundEvent( evName, string, GetName() )\<close> generates
  \<open>evNameSubscribe( aDelegate ) { Subscribe( evName, aDelegate.GetMemento() );
  evName.SetParams( GetName() ); gxSubject::Fire( evName, aDelegate.GetMemento() ); }\<close>
  and, besides the \<open>Fire\<close> of a normal event, the overload
  \<open>Fire( aEvent ) { aEvent.SetParams( GetName() ); gxSubject::Fire( aEvent ); }\<close>,
  here \<open>FireBound\<close>. The getter reads the members of the derived class.
\<close>

definition evNameSubscribe ::
    "('u \<Rightarrow> 'p) \<Rightarrow> nat \<Rightarrow> gxCallback \<Rightarrow> ('u, 'p) gxSubject \<Rightarrow> ('u, 'p) gxSubject" where
  "evNameSubscribe GetName e aDelegate s =
     (let s1 = Subscribe e aDelegate s;
          s2 = SetParams e (GetName (members s1)) s1
      in gxSubject_Fire e (Some aDelegate) s2)"

definition FireBound :: "('u \<Rightarrow> 'p) \<Rightarrow> nat \<Rightarrow> ('u, 'p) gxSubject \<Rightarrow> ('u, 'p) gxSubject" where
  "FireBound GetName e s = gxSubject_Fire e None (SetParams e (GetName (members s)) s)"

section \<open>Clients\<close>

text \<open>
  The observers and the derived class call the methods above one after another, as
  \<open>main\<close> does. \<open>OpAssign\<close> is the derived class changing its own members.
\<close>

datatype ('u, 'p) gxOp =
    OpSubscribe nat gxCallback
  | OpSubscribeBound "'u \<Rightarrow> 'p" nat gxCallback
  | OpUnsubscribe nat nat
  | OpFire nat 'p
  | OpFireBound "'u \<Rightarrow> 'p" nat
  | OpSuspendEvents bool
  | OpResumeEvents
  | OpAssign 'u

fun exec :: "('u, 'p) gxOp \<Rightarrow> ('u, 'p) gxSubject \<Rightarrow> ('u, 'p) gxSubject" where
  "exec (OpSubscribe e c) s = evAgeSubscribe e c s"
| "exec (OpSubscribeBound GetName e c) s = evNameSubscribe GetName e c s"
| "exec (OpUnsubscribe e aObj) s = evAgeUnsubscribe e aObj s"
| "exec (OpFire e v) s = Fire e v s"
| "exec (OpFireBound GetName e) s = FireBound GetName e s"
| "exec (OpSuspendEvents aQueueEvents) s = SuspendEvents aQueueEvents s"
| "exec OpResumeEvents s = ResumeEvents s"
| "exec (OpAssign u) s = s\<lparr>members := u\<rparr>"

definition run :: "('u, 'p) gxOp list \<Rightarrow> ('u, 'p) gxSubject \<Rightarrow> ('u, 'p) gxSubject" where
  "run ops s = fold exec ops s"

text \<open>
  Calls \<open>Fire( aEvent, v )\<close> made one after another, as \<open>ComplexSubject::FireEvents\<close>
  makes them, for any list of events and arguments.
\<close>

fun fire_each :: "(nat \<times> 'p) list \<Rightarrow> ('u, 'p) gxSubject \<Rightarrow> ('u, 'p) gxSubject" where
  "fire_each [] s = s"
| "fire_each ((e, v) # fs) s = fire_each fs (Fire e v s)"

section \<open>Observations and invariants\<close>

text \<open>The invocations made on the way from the state \<open>s\<close> to the later state \<open>s'\<close>.\<close>

definition invoked_since :: "('u, 'p) gxSubject \<Rightarrow> ('u, 'p) gxSubject \<Rightarrow> 'p gxCall list" where
  "invoked_since s s' = drop (length (invoked s)) (invoked s')"

text \<open>The invocations made for one event, and those among them of one observer's handlers.\<close>

definition calls_of :: "nat \<Rightarrow> 'p gxCall list \<Rightarrow> 'p gxCall list" where
  "calls_of e cs = filter (\<lambda>c. call_event c = e) cs"

definition calls_to :: "nat \<Rightarrow> nat \<Rightarrow> 'p gxCall list \<Rightarrow> 'p gxCall list" where
  "calls_to e aObj cs = filter (\<lambda>c. call_event c = e \<and> m_pthis (call_target c) = aObj) cs"

text \<open>
  What the spec says of the queue: "Queue contains no duplicate event identity; queue is
  non-empty only while mode is not Enabled" (and \<open>suspend(queueing=false)\<close> clears it).
\<close>

definition queue_inv :: "('u, 'p) gxSubject \<Rightarrow> bool" where
  "queue_inv s = (distinct (mEventQueue s) \<and> (mFiringMode s = queue \<or> mEventQueue s = []))"

text \<open>What the spec says of an event: "No two Callbacks in the set share an observer identity."\<close>

definition unique_observers :: "'p gxEvent \<Rightarrow> bool" where
  "unique_observers ev = distinct (map m_pthis (mCallbacks ev))"

text \<open>
  In the words of the spec, the order in which "event identities were first enqueued":
  each identity once, at the place of its first occurrence.
\<close>

fun first_enqueued :: "nat list \<Rightarrow> nat list" where
  "first_enqueued [] = []"
| "first_enqueued (e # es) = e # filter (\<lambda>x. x \<noteq> e) (first_enqueued es)"

text \<open>
  In the words of the spec, "the most recent value set" for an event by a sequence of
  firings, if the sequence fires the event.
\<close>

fun last_fired :: "(nat \<times> 'p) list \<Rightarrow> nat \<Rightarrow> 'p option" where
  "last_fired [] e = None"
| "last_fired ((x, v) # fs) e =
     (case last_fired fs e of Some w \<Rightarrow> Some w | None \<Rightarrow> if x = e then Some v else None)"

text \<open>
  The calls of a client that reach \<open>gxSubject::Fire\<close> for the event \<open>e\<close>: firing it,
  with or without arguments, and subscribing to it as a bound event.
\<close>

fun reaches_Fire :: "nat \<Rightarrow> ('u, 'p) gxOp \<Rightarrow> bool" where
  "reaches_Fire e (OpFire x v) = (x = e)"
| "reaches_Fire e (OpFireBound GetName x) = (x = e)"
| "reaches_Fire e (OpSubscribeBound GetName x c) = (x = e)"
| "reaches_Fire e (OpSubscribe x c) = False"
| "reaches_Fire e (OpUnsubscribe x aObj) = False"
| "reaches_Fire e (OpSuspendEvents aQueueEvents) = False"
| "reaches_Fire e OpResumeEvents = False"
| "reaches_Fire e (OpAssign u) = False"

text \<open>
  Whether, in the course of the calls \<open>ops\<close> made from the state \<open>s\<close>, one of them
  reaches \<open>gxSubject::Fire\<close> for the event \<open>e\<close> while the mode is \<open>queue\<close>.
\<close>

fun queued_by :: "nat \<Rightarrow> ('u, 'p) gxOp list \<Rightarrow> ('u, 'p) gxSubject \<Rightarrow> bool" where
  "queued_by e [] s = False"
| "queued_by e (op # ops) s =
     ((reaches_Fire e op \<and> mFiringMode s = queue) \<or> queued_by e ops (exec op s))"

section \<open>Basic facts\<close>

subsection \<open>What each method changes\<close>

lemma SetParams_simps [simp]:
  "mFiringMode (SetParams e v s) = mFiringMode s"
  "mEventQueue (SetParams e v s) = mEventQueue s"
  "members (SetParams e v s) = members s"
  "invoked (SetParams e v s) = invoked s"
  "mCallbacks (events (SetParams e v s) x) = mCallbacks (events s x)"
  "m1 (events (SetParams e v s) x) = (if x = e then v else m1 (events s x))"
  by (simp_all add: SetParams_def)

lemma gxEvent1_Fire_simps [simp]:
  "mFiringMode (gxEvent1_Fire e c s) = mFiringMode s"
  "mEventQueue (gxEvent1_Fire e c s) = mEventQueue s"
  "members (gxEvent1_Fire e c s) = members s"
  "invoked (gxEvent1_Fire e c s) = invoked s @ [gxCall e c (m1 (events s e))]"
  "mCallbacks (events (gxEvent1_Fire e c s) x) = mCallbacks (events s x)"
  "m1 (events (gxEvent1_Fire e c s) x) = m1 (events s x)"
  by (simp_all add: gxEvent1_Fire_def)

lemma for_each_callback_invoked:
  "invoked (for_each_callback e cbs s) = invoked s @ map (\<lambda>c. gxCall e c (m1 (events s e))) cbs"
  by (induction cbs arbitrary: s) simp_all

lemma for_each_callback_simps [simp]:
  "mFiringMode (for_each_callback e cbs s) = mFiringMode s"
  "mEventQueue (for_each_callback e cbs s) = mEventQueue s"
  "members (for_each_callback e cbs s) = members s"
  "mCallbacks (events (for_each_callback e cbs s) x) = mCallbacks (events s x)"
  "m1 (events (for_each_callback e cbs s) x) = m1 (events s x)"
  by (induction cbs arbitrary: s) simp_all

lemma gxEvent_Fire_simps [simp]:
  "mFiringMode (gxEvent_Fire e s) = mFiringMode s"
  "mEventQueue (gxEvent_Fire e s) = mEventQueue s"
  "members (gxEvent_Fire e s) = members s"
  "invoked (gxEvent_Fire e s) =
     invoked s @ map (\<lambda>c. gxCall e c (m1 (events s e))) (mCallbacks (events s e))"
  "mCallbacks (events (gxEvent_Fire e s) x) = mCallbacks (events s x)"
  "m1 (events (gxEvent_Fire e s) x) = m1 (events s x)"
  by (simp_all add: gxEvent_Fire_def for_each_callback_invoked)

lemma QueueEvent_simps [simp]:
  "mFiringMode (QueueEvent e s) = mFiringMode s"
  "mEventQueue (QueueEvent e s) = (if e \<in> set (mEventQueue s) then mEventQueue s else mEventQueue s @ [e])"
  "members (QueueEvent e s) = members s"
  "invoked (QueueEvent e s) = invoked s"
  "events (QueueEvent e s) = events s"
  by (simp_all add: QueueEvent_def)

lemma Subscribe_simps [simp]:
  "mFiringMode (Subscribe e c s) = mFiringMode s"
  "mEventQueue (Subscribe e c s) = mEventQueue s"
  "members (Subscribe e c s) = members s"
  "invoked (Subscribe e c s) = invoked s"
  "m1 (events (Subscribe e c s) x) = m1 (events s x)"
  "mCallbacks (events (Subscribe e c s) x) =
     (if x = e \<and> \<not> registered (m_pthis c) (mCallbacks (events s e))
      then mCallbacks (events s e) @ [c] else mCallbacks (events s x))"
  by (simp_all add: Subscribe_def gxEvent_Subscribe_def)

lemma Unsubscribe_simps [simp]:
  "mFiringMode (Unsubscribe e aObj s) = mFiringMode s"
  "mEventQueue (Unsubscribe e aObj s) = mEventQueue s"
  "members (Unsubscribe e aObj s) = members s"
  "invoked (Unsubscribe e aObj s) = invoked s"
  "m1 (events (Unsubscribe e aObj s) x) = m1 (events s x)"
  "mCallbacks (events (Unsubscribe e aObj s) x) =
     (if x = e then filter (\<lambda>c. m_pthis c \<noteq> aObj) (mCallbacks (events s e))
      else mCallbacks (events s x))"
  by (simp_all add: Unsubscribe_def gxEvent_Unsubscribe_def)

lemma gxSubject_Fire_simps [simp]:
  "mFiringMode (gxSubject_Fire e oc s) = mFiringMode s"
  "members (gxSubject_Fire e oc s) = members s"
  "mCallbacks (events (gxSubject_Fire e oc s) x) = mCallbacks (events s x)"
  "m1 (events (gxSubject_Fire e oc s) x) = m1 (events s x)"
  by (simp_all add: gxSubject_Fire_def split: option.splits)

lemma gxSubject_Fire_queue:
  "mEventQueue (gxSubject_Fire e oc s) =
     (if mFiringMode s = queue \<and> e \<notin> set (mEventQueue s) then mEventQueue s @ [e]
      else mEventQueue s)"
  by (simp add: gxSubject_Fire_def split: option.splits)

lemma gxSubject_Fire_invoked:
  "invoked (gxSubject_Fire e oc s) =
     (if mFiringMode s = on
      then invoked s @ (case oc of None \<Rightarrow> map (\<lambda>c. gxCall e c (m1 (events s e))) (mCallbacks (events s e))
                        | Some c \<Rightarrow> [gxCall e c (m1 (events s e))])
      else invoked s)"
  by (simp add: gxSubject_Fire_def split: option.splits)

lemma Fire_simps [simp]:
  "mFiringMode (Fire e v s) = mFiringMode s"
  "members (Fire e v s) = members s"
  "mCallbacks (events (Fire e v s) x) = mCallbacks (events s x)"
  "m1 (events (Fire e v s) x) = (if x = e then v else m1 (events s x))"
  by (simp_all add: Fire_def)

lemma Fire_queue:
  "mEventQueue (Fire e v s) =
     (if mFiringMode s = queue \<and> e \<notin> set (mEventQueue s) then mEventQueue s @ [e]
      else mEventQueue s)"
  by (simp add: Fire_def gxSubject_Fire_queue)

lemma Fire_invoked:
  "invoked (Fire e v s) =
     (if mFiringMode s = on then invoked s @ map (\<lambda>c. gxCall e c v) (mCallbacks (events s e))
      else invoked s)"
  by (simp add: Fire_def gxSubject_Fire_invoked)

lemma SuspendEvents_simps [simp]:
  "mFiringMode (SuspendEvents b s) = (if b then queue else off)"
  "mEventQueue (SuspendEvents b s) = (if b then mEventQueue s else [])"
  "members (SuspendEvents b s) = members s"
  "invoked (SuspendEvents b s) = invoked s"
  "events (SuspendEvents b s) = events s"
  by (simp_all add: SuspendEvents_def)

lemma drain_simps [simp]:
  "mFiringMode (drain es s) = mFiringMode s"
  "mEventQueue (drain es s) = mEventQueue s"
  "members (drain es s) = members s"
  "mCallbacks (events (drain es s) x) = mCallbacks (events s x)"
  "m1 (events (drain es s) x) = m1 (events s x)"
  by (induction es arbitrary: s) simp_all

lemma drain_invoked:
  "invoked (drain es s) =
     invoked s @ concat (map (\<lambda>e. map (\<lambda>c. gxCall e c (m1 (events s e))) (mCallbacks (events s e))) es)"
  by (induction es arbitrary: s) simp_all

lemma ResumeEvents_simps [simp]:
  "mFiringMode (ResumeEvents s) = on"
  "mEventQueue (ResumeEvents s) = (if mFiringMode s = on then mEventQueue s else [])"
  "members (ResumeEvents s) = members s"
  "mCallbacks (events (ResumeEvents s) x) = mCallbacks (events s x)"
  "m1 (events (ResumeEvents s) x) = m1 (events s x)"
  by (cases "mFiringMode s"; simp add: ResumeEvents_def)+

lemma ResumeEvents_invoked:
  "invoked (ResumeEvents s) =
     (if mFiringMode s = queue
      then invoked s @ concat (map (\<lambda>e. map (\<lambda>c. gxCall e c (m1 (events s e))) (mCallbacks (events s e)))
                                (mEventQueue s))
      else invoked s)"
  by (cases "mFiringMode s") (simp_all add: ResumeEvents_def drain_invoked)

lemma evNameSubscribe_simps [simp]:
  "mFiringMode (evNameSubscribe G e c s) = mFiringMode s"
  "members (evNameSubscribe G e c s) = members s"
  "m1 (events (evNameSubscribe G e c s) x) = (if x = e then G (members s) else m1 (events s x))"
  "mCallbacks (events (evNameSubscribe G e c s) x) =
     (if x = e \<and> \<not> registered (m_pthis c) (mCallbacks (events s e))
      then mCallbacks (events s e) @ [c] else mCallbacks (events s x))"
  by (simp_all add: evNameSubscribe_def Let_def)

lemma evNameSubscribe_queue:
  "mEventQueue (evNameSubscribe G e c s) =
     (if mFiringMode s = queue \<and> e \<notin> set (mEventQueue s) then mEventQueue s @ [e]
      else mEventQueue s)"
  by (simp add: evNameSubscribe_def Let_def gxSubject_Fire_queue)

lemma evNameSubscribe_invoked:
  "invoked (evNameSubscribe G e c s) =
     (if mFiringMode s = on then invoked s @ [gxCall e c (G (members s))] else invoked s)"
  by (simp add: evNameSubscribe_def Let_def gxSubject_Fire_invoked)

lemma FireBound_simps [simp]:
  "mFiringMode (FireBound G e s) = mFiringMode s"
  "members (FireBound G e s) = members s"
  "mCallbacks (events (FireBound G e s) x) = mCallbacks (events s x)"
  by (simp_all add: FireBound_def)

lemma FireBound_queue:
  "mEventQueue (FireBound G e s) =
     (if mFiringMode s = queue \<and> e \<notin> set (mEventQueue s) then mEventQueue s @ [e]
      else mEventQueue s)"
  by (simp add: FireBound_def gxSubject_Fire_queue)

subsection \<open>The invariants hold in every state a client can reach\<close>

lemma queue_inv_exec: "queue_inv s \<Longrightarrow> queue_inv (exec op s)"
  by (cases op)
     (auto simp: queue_inv_def evAgeSubscribe_def evAgeUnsubscribe_def Fire_queue FireBound_queue
        evNameSubscribe_queue)

lemma queue_inv_run: "queue_inv s \<Longrightarrow> queue_inv (run ops s)"
  unfolding run_def by (induction ops arbitrary: s) (simp_all add: queue_inv_exec)

lemma queue_inv_new: "queue_inv (gxSubject_new u a0)"
  by (simp add: queue_inv_def gxSubject_new_def)

lemma unique_observers_exec:
  "unique_observers (events s e) \<Longrightarrow> unique_observers (events (exec op s) e)"
  by (cases op)
     (auto simp: unique_observers_def evAgeSubscribe_def evAgeUnsubscribe_def registered_def
        distinct_map_filter)

lemma unique_observers_run:
  "unique_observers (events s e) \<Longrightarrow> unique_observers (events (run ops s) e)"
  unfolding run_def by (induction ops arbitrary: s) (simp_all add: unique_observers_exec)

lemma unique_observers_new: "unique_observers (events (gxSubject_new u a0) e)"
  by (simp add: unique_observers_def gxSubject_new_def)

lemma reachable_invariants:
  "queue_inv (run ops (gxSubject_new u a0)) \<and> unique_observers (events (run ops (gxSubject_new u a0)) e)"
  by (simp add: queue_inv_run queue_inv_new unique_observers_run unique_observers_new)

lemma not_queued_exec:
  "e \<notin> set (mEventQueue s) \<Longrightarrow> \<not> (reaches_Fire e op \<and> mFiringMode s = queue) \<Longrightarrow>
   e \<notin> set (mEventQueue (exec op s))"
  by (cases op)
     (auto simp: evAgeSubscribe_def evAgeUnsubscribe_def Fire_queue FireBound_queue
        evNameSubscribe_queue split: if_splits)

lemma not_queued_run:
  "e \<notin> set (mEventQueue s) \<Longrightarrow> \<not> queued_by e ops s \<Longrightarrow> e \<notin> set (mEventQueue (run ops s))"
proof (induction ops arbitrary: s)
  case Nil
  then show ?case by (simp add: run_def)
next
  case (Cons op ops)
  from Cons.prems have "e \<notin> set (mEventQueue (exec op s))"
    by (simp add: not_queued_exec)
  moreover from Cons.prems have "\<not> queued_by e ops (exec op s)"
    by simp
  ultimately have "e \<notin> set (mEventQueue (run ops (exec op s)))"
    by (rule Cons.IH)
  then show ?case by (simp add: run_def)
qed

subsection \<open>Counting invocations\<close>

lemma calls_to_unique:
  "distinct (map m_pthis cbs) \<Longrightarrow> aObj \<in> set (map m_pthis cbs) \<Longrightarrow>
   length (filter (\<lambda>c. m_pthis c = aObj) cbs) = 1"
proof (induction cbs)
  case Nil
  then show ?case by simp
next
  case (Cons c cbs)
  show ?case
  proof (cases "m_pthis c = aObj")
    case True
    with Cons.prems have "aObj \<notin> m_pthis ` set cbs" by simp
    then have "\<forall>d \<in> set cbs. m_pthis d \<noteq> aObj" by blast
    then have "filter (\<lambda>c. m_pthis c = aObj) cbs = []" by (simp add: filter_empty_conv)
    with True show ?thesis by simp
  next
    case False
    with Cons show ?thesis by simp
  qed
qed

lemma calls_of_drained:
  "distinct es \<Longrightarrow>
   filter (\<lambda>c. call_event c = e) (concat (map (\<lambda>x. map (\<lambda>c. gxCall x c (f x)) (g x)) es)) =
     (if e \<in> set es then map (\<lambda>c. gxCall e c (f e)) (g e) else [])"
proof (induction es)
  case Nil
  then show ?case by simp
next
  case (Cons x es)
  have other: "x \<noteq> e \<Longrightarrow> filter (\<lambda>c. call_event c = e) (map (\<lambda>c. gxCall x c (f x)) (g x)) = []"
    by (simp add: filter_empty_conv)
  have same: "filter (\<lambda>c. call_event c = e) (map (\<lambda>c. gxCall e c (f e)) (g e)) =
      map (\<lambda>c. gxCall e c (f e)) (g e)"
    by (simp add: filter_id_conv)
  from Cons.prems have IH: "filter (\<lambda>c. call_event c = e)
      (concat (map (\<lambda>x. map (\<lambda>c. gxCall x c (f x)) (g x)) es)) =
      (if e \<in> set es then map (\<lambda>c. gxCall e c (f e)) (g e) else [])"
    by (simp add: Cons.IH)
  show ?case
  proof (cases "x = e")
    case True
    with Cons.prems have "e \<notin> set es" by simp
    with True IH show ?thesis by (simp add: same)
  next
    case False
    with IH show ?thesis by (simp add: other)
  qed
qed

lemma calls_to_calls_of:
  "calls_to e aObj cs = filter (\<lambda>c. m_pthis (call_target c) = aObj) (calls_of e cs)"
  by (simp add: calls_to_def calls_of_def conj_commute)

lemma calls_to_fired:
  "distinct (map m_pthis cbs) \<Longrightarrow> aObj \<in> set (map m_pthis cbs) \<Longrightarrow>
   length (filter (\<lambda>c. m_pthis (call_target c) = aObj) (map (\<lambda>c. gxCall e c v) cbs)) = 1"
  using calls_to_unique [of cbs aObj] by (simp add: filter_map comp_def)

lemma ResumeEvents_not_queued:
  assumes "queue_inv s" and "e \<notin> set (mEventQueue s)"
  shows "calls_of e (invoked_since s (ResumeEvents s)) = []"
proof (cases "mFiringMode s = queue")
  case True
  from assms(1) have "distinct (mEventQueue s)"
    by (simp add: queue_inv_def)
  then have "filter (\<lambda>c. call_event c = e)
      (concat (map (\<lambda>x. map (\<lambda>c. gxCall x c (m1 (events s x))) (mCallbacks (events s x)))
        (mEventQueue s))) = []"
    using assms(2)
      calls_of_drained [of "mEventQueue s" e "\<lambda>x. m1 (events s x)" "\<lambda>x. mCallbacks (events s x)"]
    by simp
  with True show ?thesis
    by (simp add: calls_of_def invoked_since_def ResumeEvents_invoked)
next
  case False
  then show ?thesis
    by (simp add: calls_of_def invoked_since_def ResumeEvents_invoked)
qed

subsection \<open>Sequences of firings\<close>

lemma fire_each_simps [simp]:
  "mFiringMode (fire_each fs s) = mFiringMode s"
  "members (fire_each fs s) = members s"
  "mCallbacks (events (fire_each fs s) x) = mCallbacks (events s x)"
  by (induction fs arbitrary: s) auto

lemma fire_each_m1:
  "m1 (events (fire_each fs s) e) = (case last_fired fs e of Some v \<Rightarrow> v | None \<Rightarrow> m1 (events s e))"
  by (induction fs arbitrary: s) (auto split: option.splits)

lemma fire_each_invoked_suspended:
  "mFiringMode s \<noteq> on \<Longrightarrow> invoked (fire_each fs s) = invoked s"
  by (induction fs arbitrary: s) (auto simp: Fire_invoked)

lemma set_first_enqueued [simp]: "set (first_enqueued es) = set es"
  by (induction es) auto

lemma distinct_first_enqueued [simp]: "distinct (first_enqueued es)"
  by (induction es) auto

lemma first_enqueued_append:
  "distinct q \<Longrightarrow> first_enqueued (q @ es) = q @ filter (\<lambda>x. x \<notin> set q) (first_enqueued es)"
proof (induction q)
  case Nil
  then show ?case by simp
next
  case (Cons x q)
  from Cons.prems have "filter (\<lambda>y. y \<noteq> x) q = q" by (auto simp: filter_id_conv)
  with Cons show ?case by (simp add: conj_commute)
qed

lemma fire_each_queue:
  "mFiringMode s = queue \<Longrightarrow>
   mEventQueue (fire_each fs s) =
     mEventQueue s @ filter (\<lambda>x. x \<notin> set (mEventQueue s)) (first_enqueued (map fst fs))"
proof (induction fs arbitrary: s)
  case Nil
  then show ?case by simp
next
  case (Cons f fs)
  obtain e v where f: "f = (e, v)" by (cases f)
  have mode: "mFiringMode (Fire e v s) = queue" using Cons.prems by simp
  show ?case
  proof (cases "e \<in> set (mEventQueue s)")
    case True
    then have "filter (\<lambda>x. x \<notin> set (mEventQueue s)) (filter (\<lambda>x. x \<noteq> e) (first_enqueued (map fst fs))) =
        filter (\<lambda>x. x \<notin> set (mEventQueue s)) (first_enqueued (map fst fs))"
      by (auto intro: filter_cong)
    with True f Cons.IH [OF mode] Cons.prems show ?thesis by (simp add: Fire_queue)
  next
    case False
    have "filter (\<lambda>x. x \<notin> set (mEventQueue s)) (filter (\<lambda>x. x \<noteq> e) (first_enqueued (map fst fs))) =
        filter (\<lambda>x. x \<noteq> e \<and> x \<notin> set (mEventQueue s)) (first_enqueued (map fst fs))"
      by (auto intro: filter_cong)
    with False f Cons.IH [OF mode] Cons.prems show ?thesis by (simp add: Fire_queue)
  qed
qed

section \<open>Firing while enabled\<close>

text \<open>
  C9. When the event has no callback, \<open>Fire( aEvent, v )\<close> in the mode \<open>on\<close> caches
  the argument \<open>v\<close> and invokes no handler; the firing mode and the queue are as before. The
  functions have no error result: the loop over the callbacks makes no iteration.
\<close>

theorem fire_enabled_no_callbacks:
  assumes "mFiringMode s = on" and "mCallbacks (events s e) = []"
  shows "m1 (events (Fire e v s) e) = v \<and> invoked (Fire e v s) = invoked s
         \<and> mFiringMode (Fire e v s) = on \<and> mEventQueue (Fire e v s) = mEventQueue s"
  using assms by (simp add: Fire_def gxSubject_Fire_def gxEvent_Fire_def SetParams_def)

theorem fire_enabled_no_callbacks_witness:
  "mFiringMode (gxSubject_new () (0::int)) = on
   \<and> mCallbacks (events (gxSubject_new () (0::int)) 3) = []
   \<and> m1 (events (Fire 3 69 (gxSubject_new () (0::int))) 3) = 69
   \<and> invoked (Fire 3 69 (gxSubject_new () (0::int))) = []"
  using fire_enabled_no_callbacks [where s = "gxSubject_new () (0::int)" and e = 3 and v = 69]
  by (simp add: gxSubject_new_def)

text \<open>
  C5. In the mode \<open>on\<close>, \<open>Fire( aEvent, v )\<close> caches the argument and then invokes
  every callback of the event, in the order of \<open>mCallbacks\<close>, each with that argument;
  the callbacks are as before. \<open>mCallbacks\<close> is in the order of registration: a
  callback subscribed for a new observer is invoked after the ones registered before.
\<close>

theorem fire_enabled_invokes_all:
  assumes "mFiringMode s = on"
  shows "m1 (events (Fire e v s) e) = v
         \<and> invoked (Fire e v s) = invoked s @ map (\<lambda>c. gxCall e c v) (mCallbacks (events s e))
         \<and> mCallbacks (events (Fire e v s) e) = mCallbacks (events s e)
         \<and> (\<not> registered (m_pthis aDelegate) (mCallbacks (events s e)) \<longrightarrow>
              invoked (Fire e v (evAgeSubscribe e aDelegate s)) =
                invoked s @ map (\<lambda>c. gxCall e c v) (mCallbacks (events s e))
                  @ [gxCall e aDelegate v])"
  using assms
  by (simp add: Fire_def gxSubject_Fire_def gxEvent_Fire_def SetParams_def
      for_each_callback_invoked evAgeSubscribe_def Subscribe_def gxEvent_Subscribe_def)

theorem fire_enabled_invokes_all_witness:
  "mFiringMode (evAgeSubscribe 3 (MakeDelegate 10 1) (gxSubject_new () (0::int))) = on
   \<and> \<not> registered (m_pthis (MakeDelegate 20 2))
         (mCallbacks (events (evAgeSubscribe 3 (MakeDelegate 10 1) (gxSubject_new () (0::int))) 3))
   \<and> invoked (Fire 3 69 (evAgeSubscribe 3 (MakeDelegate 20 2)
         (evAgeSubscribe 3 (MakeDelegate 10 1) (gxSubject_new () (0::int))))) =
       [gxCall 3 (MakeDelegate 10 1) 69, gxCall 3 (MakeDelegate 20 2) 69]"
  using fire_enabled_invokes_all
    [where s = "evAgeSubscribe 3 (MakeDelegate 10 1) (gxSubject_new () (0::int))"
       and aDelegate = "MakeDelegate 20 2" and e = 3 and v = 69]
  by (simp add: gxSubject_new_def evAgeSubscribe_def Subscribe_def gxEvent_Subscribe_def
      registered_def MakeDelegate_def)

section \<open>Subscribing to a bound event\<close>

text \<open>
  C1. In the mode \<open>on\<close>, subscribing an observer that is not yet registered on a bound
  event invokes exactly one handler: the one of the subscribed delegate, once, with the
  value of the getter. No handler of an observer registered before is invoked, and the
  delegate is registered afterwards.
\<close>

theorem bound_subscribe_enabled_delivers_once:
  assumes "mFiringMode s = on"
    and "\<not> registered (m_pthis aDelegate) (mCallbacks (events s e))"
  shows "invoked (evNameSubscribe GetName e aDelegate s) =
           invoked s @ [gxCall e aDelegate (GetName (members s))]
         \<and> (\<forall>c \<in> set (invoked_since s (evNameSubscribe GetName e aDelegate s)).
              \<not> registered (m_pthis (call_target c)) (mCallbacks (events s e)))
         \<and> mCallbacks (events (evNameSubscribe GetName e aDelegate s) e) =
             mCallbacks (events s e) @ [aDelegate]"
  using assms
  by (simp add: evNameSubscribe_def Subscribe_def gxEvent_Subscribe_def SetParams_def
      gxSubject_Fire_def gxEvent1_Fire_def invoked_since_def Let_def)

theorem bound_subscribe_enabled_delivers_once_witness:
  "mFiringMode (evNameSubscribe id 5 (MakeDelegate 10 1) (gxSubject_new ''Crazy!'' '''')) = on
   \<and> \<not> registered (m_pthis (MakeDelegate 20 2))
         (mCallbacks (events (evNameSubscribe id 5 (MakeDelegate 10 1) (gxSubject_new ''Crazy!'' '''')) 5))
   \<and> invoked (evNameSubscribe id 5 (MakeDelegate 20 2)
         (evNameSubscribe id 5 (MakeDelegate 10 1) (gxSubject_new ''Crazy!'' ''''))) =
       [gxCall 5 (MakeDelegate 10 1) ''Crazy!'', gxCall 5 (MakeDelegate 20 2) ''Crazy!'']"
  using bound_subscribe_enabled_delivers_once
    [where s = "evNameSubscribe id 5 (MakeDelegate 10 1) (gxSubject_new ''Crazy!'' '''')"
       and aDelegate = "MakeDelegate 20 2" and e = 5 and GetName = id]
  by (simp add: evNameSubscribe_def Subscribe_def gxEvent_Subscribe_def SetParams_def
      gxSubject_Fire_def gxEvent1_Fire_def gxSubject_new_def registered_def MakeDelegate_def
      Let_def)

text \<open>
  C3, as claimed: in every firing mode, subscribing a new observer to a bound event
  delivers the value of the getter to that observer at once. It fails in the mode
  \<open>off\<close>: \<open>evNameSubscribe\<close> delivers through \<open>gxSubject::Fire\<close>, which invokes a
  handler only when the mode is \<open>on\<close>. On a new subject suspended without queueing,
  the subscription of a new observer invokes nothing.
\<close>

theorem bound_subscribe_suspended_counterexample:
  "mFiringMode (SuspendEvents False (gxSubject_new ''Crazy!'' '''')) = off
   \<and> \<not> registered 10 (mCallbacks (events (SuspendEvents False (gxSubject_new ''Crazy!'' '''')) 5))
   \<and> invoked (evNameSubscribe id 5 (MakeDelegate 10 1)
        (SuspendEvents False (gxSubject_new ''Crazy!'' ''''))) = []"
  by (simp add: evNameSubscribe_invoked gxSubject_new_def registered_def)

text \<open>
  C3, amended. Subscribing to a bound event caches the value of the getter in every
  firing mode, but invokes the handler of the subscribed delegate at once only in the
  mode \<open>on\<close>. In the mode \<open>queue\<close> no handler is invoked and the event is put on the
  queue, if it is not there yet; in the mode \<open>off\<close> no handler is invoked and the queue
  is as before.
\<close>

theorem bound_subscribe_by_mode:
  "m1 (events (evNameSubscribe GetName e aDelegate s) e) = GetName (members s)
   \<and> invoked (evNameSubscribe GetName e aDelegate s) =
       invoked s @ (if mFiringMode s = on then [gxCall e aDelegate (GetName (members s))] else [])
   \<and> mEventQueue (evNameSubscribe GetName e aDelegate s) =
       (if mFiringMode s = queue \<and> e \<notin> set (mEventQueue s) then mEventQueue s @ [e]
        else mEventQueue s)"
  by (cases "mFiringMode s")
     (simp_all add: evNameSubscribe_def Subscribe_def gxEvent_Subscribe_def SetParams_def
        gxSubject_Fire_def gxEvent1_Fire_def QueueEvent_def Let_def)

theorem bound_subscribe_by_mode_witness:
  "mFiringMode (SuspendEvents True (gxSubject_new ''Crazy!'' '''')) = queue
   \<and> invoked (evNameSubscribe id 5 (MakeDelegate 10 1)
        (SuspendEvents True (gxSubject_new ''Crazy!'' ''''))) = []
   \<and> mEventQueue (evNameSubscribe id 5 (MakeDelegate 10 1)
        (SuspendEvents True (gxSubject_new ''Crazy!'' ''''))) = [5]
   \<and> m1 (events (evNameSubscribe id 5 (MakeDelegate 10 1)
        (SuspendEvents True (gxSubject_new ''Crazy!'' ''''))) 5) = ''Crazy!''"
  using bound_subscribe_by_mode
    [where s = "SuspendEvents True (gxSubject_new ''Crazy!'' '''')"
       and aDelegate = "MakeDelegate 10 1" and e = 5 and GetName = id]
  by (simp add: SuspendEvents_def gxSubject_new_def)

text \<open>
  C4, as claimed: subscribing to a bound event an observer that is already registered
  makes no \<open>SetParams\<close> and no delivery. It fails: \<open>evNameSubscribe\<close> calls
  \<open>SetParams\<close> and \<open>gxSubject::Fire\<close> whatever \<open>Subscribe\<close> did, so the second
  subscription below invokes the handler again.
\<close>

theorem bound_subscribe_duplicate_counterexample:
  "registered 10 (mCallbacks (events
       (evNameSubscribe id 5 (MakeDelegate 10 1) (gxSubject_new ''Crazy!'' '''')) 5))
   \<and> invoked (evNameSubscribe id 5 (MakeDelegate 10 1)
        (evNameSubscribe id 5 (MakeDelegate 10 1) (gxSubject_new ''Crazy!'' ''''))) \<noteq>
      invoked (evNameSubscribe id 5 (MakeDelegate 10 1) (gxSubject_new ''Crazy!'' ''''))"
  by (simp add: evNameSubscribe_def Subscribe_def gxEvent_Subscribe_def SetParams_def
      gxSubject_Fire_def gxEvent1_Fire_def gxSubject_new_def registered_def MakeDelegate_def
      Let_def)

text \<open>
  C4, amended. The delivery on subscription to a bound event does not depend on the
  observer being new: when the observer is already registered and the mode is \<open>on\<close>,
  the value of the getter is still cached and the handler of the subscribed delegate is
  still invoked once with it.
\<close>

theorem bound_subscribe_duplicate_delivers:
  assumes "registered (m_pthis aDelegate) (mCallbacks (events s e))"
    and "mFiringMode s = on"
  shows "m1 (events (evNameSubscribe GetName e aDelegate s) e) = GetName (members s)
         \<and> invoked (evNameSubscribe GetName e aDelegate s) =
             invoked s @ [gxCall e aDelegate (GetName (members s))]"
  using assms
  by (simp add: evNameSubscribe_def Subscribe_def gxEvent_Subscribe_def SetParams_def
      gxSubject_Fire_def gxEvent1_Fire_def Let_def)

theorem bound_subscribe_duplicate_delivers_witness:
  "registered (m_pthis (MakeDelegate 10 1)) (mCallbacks (events
       (evNameSubscribe id 5 (MakeDelegate 10 1) (gxSubject_new ''Crazy!'' '''')) 5))
   \<and> mFiringMode (evNameSubscribe id 5 (MakeDelegate 10 1) (gxSubject_new ''Crazy!'' '''')) = on
   \<and> invoked (evNameSubscribe id 5 (MakeDelegate 10 1)
        (evNameSubscribe id 5 (MakeDelegate 10 1) (gxSubject_new ''Crazy!'' ''''))) =
      [gxCall 5 (MakeDelegate 10 1) ''Crazy!'', gxCall 5 (MakeDelegate 10 1) ''Crazy!'']"
  using bound_subscribe_duplicate_delivers
    [where s = "evNameSubscribe id 5 (MakeDelegate 10 1) (gxSubject_new ''Crazy!'' '''')"
       and aDelegate = "MakeDelegate 10 1" and e = 5 and GetName = id]
  by (simp add: evNameSubscribe_def Subscribe_def gxEvent_Subscribe_def SetParams_def
      gxSubject_Fire_def gxEvent1_Fire_def gxSubject_new_def registered_def MakeDelegate_def
      Let_def)

text \<open>
  C10. Subscribing to a bound event an observer that is already registered leaves the
  callbacks of every event as they were, and still overwrites the cached argument of the
  event with the value of the getter, in every firing mode.
\<close>

theorem bound_subscribe_duplicate_sets_params:
  assumes "registered (m_pthis aDelegate) (mCallbacks (events s e))"
  shows "mCallbacks (events (evNameSubscribe GetName e aDelegate s) x) = mCallbacks (events s x)
         \<and> m1 (events (evNameSubscribe GetName e aDelegate s) e) = GetName (members s)"
  using assms
  by (cases "mFiringMode s")
     (simp_all add: evNameSubscribe_def Subscribe_def gxEvent_Subscribe_def SetParams_def
        gxSubject_Fire_def gxEvent1_Fire_def QueueEvent_def Let_def)

theorem bound_subscribe_duplicate_sets_params_witness:
  "registered (m_pthis (MakeDelegate 10 1)) (mCallbacks (events
       (Fire 5 ''Daisy!'' (evNameSubscribe id 5 (MakeDelegate 10 1) (gxSubject_new ''Crazy!'' ''''))) 5))
   \<and> m1 (events (Fire 5 ''Daisy!''
        (evNameSubscribe id 5 (MakeDelegate 10 1) (gxSubject_new ''Crazy!'' ''''))) 5) = ''Daisy!''
   \<and> m1 (events (evNameSubscribe id 5 (MakeDelegate 10 1) (Fire 5 ''Daisy!''
        (evNameSubscribe id 5 (MakeDelegate 10 1) (gxSubject_new ''Crazy!'' '''')))) 5) = ''Crazy!''
   \<and> mCallbacks (events (evNameSubscribe id 5 (MakeDelegate 10 1) (Fire 5 ''Daisy!''
        (evNameSubscribe id 5 (MakeDelegate 10 1) (gxSubject_new ''Crazy!'' '''')))) 5) =
      [MakeDelegate 10 1]"
  using bound_subscribe_duplicate_sets_params
    [where s = "Fire 5 ''Daisy!'' (evNameSubscribe id 5 (MakeDelegate 10 1) (gxSubject_new ''Crazy!'' ''''))"
       and aDelegate = "MakeDelegate 10 1" and e = 5 and x = 5 and GetName = id]
  by (simp add: Fire_def gxEvent_Fire_def evNameSubscribe_def Subscribe_def gxEvent_Subscribe_def
      SetParams_def gxSubject_Fire_def gxEvent1_Fire_def gxSubject_new_def registered_def
      MakeDelegate_def Let_def)

section \<open>Registration\<close>

text \<open>
  C7. Registering a callback for an observer that the event already has is a no-op: the
  subject is as before, there is no error result. So in every state a client can reach
  from a new subject, no two callbacks of an event have the same observer, and firing
  the event in the mode \<open>on\<close> invokes a registered observer exactly once.
\<close>

theorem duplicate_registration_ignored:
  "(registered (m_pthis aDelegate) (mCallbacks (events s e)) \<longrightarrow> evAgeSubscribe e aDelegate s = s)
   \<and> (let r = run ops (gxSubject_new u a0) in
        unique_observers (events r e)
        \<and> (mFiringMode r = on \<and> registered aObj (mCallbacks (events r e)) \<longrightarrow>
             length (calls_to e aObj (invoked_since r (Fire e v r))) = 1))"
proof -
  have noop: "registered (m_pthis aDelegate) (mCallbacks (events s e)) \<longrightarrow>
      evAgeSubscribe e aDelegate s = s"
    by (simp add: evAgeSubscribe_def Subscribe_def gxEvent_Subscribe_def)
  define r where "r = run ops (gxSubject_new u a0)"
  have uniq: "unique_observers (events r e)"
    unfolding r_def by (rule unique_observers_run) (rule unique_observers_new)
  have once: "length (calls_to e aObj (invoked_since r (Fire e v r))) = 1"
    if "mFiringMode r = on" and "registered aObj (mCallbacks (events r e))"
  proof -
    from that have "invoked_since r (Fire e v r) = map (\<lambda>c. gxCall e c v) (mCallbacks (events r e))"
      by (simp add: invoked_since_def Fire_invoked)
    moreover have "calls_of e (map (\<lambda>c. gxCall e c v) (mCallbacks (events r e))) =
        map (\<lambda>c. gxCall e c v) (mCallbacks (events r e))"
      by (simp add: calls_of_def filter_id_conv)
    ultimately show ?thesis
      using uniq that(2) calls_to_fired [of "mCallbacks (events r e)" aObj e v]
      by (simp add: calls_to_calls_of unique_observers_def registered_def)
  qed
  from noop uniq once show ?thesis by (simp add: r_def Let_def)
qed

theorem duplicate_registration_ignored_witness:
  "registered (m_pthis (MakeDelegate 10 2))
     (mCallbacks (events (evAgeSubscribe 3 (MakeDelegate 10 1) (gxSubject_new () (0::int))) 3))
   \<and> evAgeSubscribe 3 (MakeDelegate 10 2) (evAgeSubscribe 3 (MakeDelegate 10 1) (gxSubject_new () (0::int))) =
       evAgeSubscribe 3 (MakeDelegate 10 1) (gxSubject_new () (0::int))
   \<and> mFiringMode (run [OpSubscribe 3 (MakeDelegate 10 1), OpSubscribe 3 (MakeDelegate 10 2)]
        (gxSubject_new () (0::int))) = on
   \<and> registered 10 (mCallbacks (events
        (run [OpSubscribe 3 (MakeDelegate 10 1), OpSubscribe 3 (MakeDelegate 10 2)]
          (gxSubject_new () (0::int))) 3))
   \<and> length (calls_to 3 10 (invoked_since
        (run [OpSubscribe 3 (MakeDelegate 10 1), OpSubscribe 3 (MakeDelegate 10 2)]
          (gxSubject_new () (0::int)))
        (Fire 3 69 (run [OpSubscribe 3 (MakeDelegate 10 1), OpSubscribe 3 (MakeDelegate 10 2)]
          (gxSubject_new () (0::int)))))) = 1"
proof -
  have h1: "registered (m_pthis (MakeDelegate 10 2))
     (mCallbacks (events (evAgeSubscribe 3 (MakeDelegate 10 1) (gxSubject_new () (0::int))) 3))"
    by (simp add: evAgeSubscribe_def gxSubject_new_def registered_def MakeDelegate_def)
  have h2: "mFiringMode (run [OpSubscribe 3 (MakeDelegate 10 1), OpSubscribe 3 (MakeDelegate 10 2)]
        (gxSubject_new () (0::int))) = on"
    by (simp add: run_def evAgeSubscribe_def gxSubject_new_def)
  have h3: "registered 10 (mCallbacks (events
        (run [OpSubscribe 3 (MakeDelegate 10 1), OpSubscribe 3 (MakeDelegate 10 2)]
          (gxSubject_new () (0::int))) 3))"
    by (simp add: run_def evAgeSubscribe_def gxSubject_new_def registered_def MakeDelegate_def)
  from h1 h2 h3 show ?thesis
    using duplicate_registration_ignored
      [where s = "evAgeSubscribe 3 (MakeDelegate 10 1) (gxSubject_new () (0::int))"
         and aDelegate = "MakeDelegate 10 2" and e = 3 and aObj = 10 and v = 69 and u = "()"
         and ?a0.0 = "0::int"
         and ops = "[OpSubscribe 3 (MakeDelegate 10 1), OpSubscribe 3 (MakeDelegate 10 2)]"]
    unfolding Let_def by blast
qed

section \<open>Suspending and resuming\<close>

text \<open>
  C2. After \<open>SuspendEvents( true )\<close>, \<open>Fire( aEvent, v1 )\<close>, \<open>Fire( aEvent, v2 )\<close>
  and \<open>ResumeEvents()\<close>, the invocations made for the event are one for each of its
  callbacks, with \<open>v2\<close>: every registered observer is invoked exactly once, and when
  \<open>v1\<close> differs from \<open>v2\<close> no invocation for the event has \<open>v1\<close>.
\<close>

theorem queued_fires_coalesce:
  assumes "queue_inv s" and "unique_observers (events s e)"
  shows "let s' = ResumeEvents (Fire e v2 (Fire e v1 (SuspendEvents True s))) in
           calls_of e (invoked_since s s') = map (\<lambda>c. gxCall e c v2) (mCallbacks (events s e))
           \<and> (\<forall>c \<in> set (mCallbacks (events s e)).
                length (calls_to e (m_pthis c) (invoked_since s s')) = 1)
           \<and> (v1 \<noteq> v2 \<longrightarrow> (\<forall>c \<in> set (calls_of e (invoked_since s s')). call_arg c \<noteq> v1))"
proof -
  define s3 where "s3 = Fire e v2 (Fire e v1 (SuspendEvents True s))"
  define s' where "s' = ResumeEvents s3"
  have mode: "mFiringMode s3 = queue"
    by (simp add: s3_def)
  have q: "mEventQueue s3 = (if e \<in> set (mEventQueue s) then mEventQueue s else mEventQueue s @ [e])"
    by (simp add: s3_def Fire_queue)
  have dist: "distinct (mEventQueue s3)" and mem: "e \<in> set (mEventQueue s3)"
    using assms(1) by (simp_all add: q queue_inv_def)
  have inv3: "invoked s3 = invoked s"
    by (simp add: s3_def Fire_invoked)
  have "invoked s' = invoked s @
      concat (map (\<lambda>x. map (\<lambda>c. gxCall x c (m1 (events s3 x))) (mCallbacks (events s3 x))) (mEventQueue s3))"
    by (simp add: s'_def ResumeEvents_invoked mode inv3)
  then have since: "invoked_since s s' =
      concat (map (\<lambda>x. map (\<lambda>c. gxCall x c (m1 (events s3 x))) (mCallbacks (events s3 x))) (mEventQueue s3))"
    by (simp add: invoked_since_def)
  have "calls_of e (invoked_since s s') = map (\<lambda>c. gxCall e c (m1 (events s3 e))) (mCallbacks (events s3 e))"
    unfolding since calls_of_def
    using calls_of_drained [OF dist, of e "\<lambda>x. m1 (events s3 x)" "\<lambda>x. mCallbacks (events s3 x)"] mem
    by simp
  then have calls: "calls_of e (invoked_since s s') = map (\<lambda>c. gxCall e c v2) (mCallbacks (events s e))"
    by (simp add: s3_def)
  have once: "length (calls_to e (m_pthis c) (invoked_since s s')) = 1"
    if "c \<in> set (mCallbacks (events s e))" for c
    using that assms(2) calls_to_fired [of "mCallbacks (events s e)" "m_pthis c" e v2]
    by (simp add: calls_to_calls_of calls unique_observers_def)
  have never: "\<forall>c \<in> set (calls_of e (invoked_since s s')). call_arg c \<noteq> v1" if "v1 \<noteq> v2"
    using that by (auto simp: calls)
  from calls once never show ?thesis
    by (simp add: s'_def s3_def Let_def)
qed

theorem queued_fires_coalesce_witness:
  "queue_inv (evAgeSubscribe 3 (MakeDelegate 10 1) (gxSubject_new () (0::int)))
   \<and> unique_observers (events (evAgeSubscribe 3 (MakeDelegate 10 1) (gxSubject_new () (0::int))) 3)
   \<and> invoked (ResumeEvents (Fire 3 12 (Fire 3 76 (SuspendEvents True
        (evAgeSubscribe 3 (MakeDelegate 10 1) (gxSubject_new () (0::int))))))) =
      [gxCall 3 (MakeDelegate 10 1) 12]
   \<and> MakeDelegate 10 1 \<in> set (mCallbacks (events
        (evAgeSubscribe 3 (MakeDelegate 10 1) (gxSubject_new () (0::int))) 3))
   \<and> length (calls_to 3 (m_pthis (MakeDelegate 10 1))
        (invoked_since (evAgeSubscribe 3 (MakeDelegate 10 1) (gxSubject_new () (0::int)))
          (ResumeEvents (Fire 3 12 (Fire 3 76 (SuspendEvents True
            (evAgeSubscribe 3 (MakeDelegate 10 1) (gxSubject_new () (0::int))))))))) = 1
   \<and> (76::int) \<noteq> 12
   \<and> calls_of 3
        (invoked_since (evAgeSubscribe 3 (MakeDelegate 10 1) (gxSubject_new () (0::int)))
          (ResumeEvents (Fire 3 12 (Fire 3 76 (SuspendEvents True
            (evAgeSubscribe 3 (MakeDelegate 10 1) (gxSubject_new () (0::int)))))))) =
       [gxCall 3 (MakeDelegate 10 1) 12]"
proof -
  have h1: "queue_inv (evAgeSubscribe 3 (MakeDelegate 10 1) (gxSubject_new () (0::int)))"
    by (simp add: queue_inv_def evAgeSubscribe_def gxSubject_new_def)
  have h2: "unique_observers
      (events (evAgeSubscribe 3 (MakeDelegate 10 1) (gxSubject_new () (0::int))) 3)"
    by (simp add: unique_observers_def evAgeSubscribe_def gxSubject_new_def registered_def)
  have run: "invoked (ResumeEvents (Fire 3 12 (Fire 3 76 (SuspendEvents True
        (evAgeSubscribe 3 (MakeDelegate 10 1) (gxSubject_new () (0::int))))))) =
      [gxCall 3 (MakeDelegate 10 1) 12]"
    by (simp add: ResumeEvents_invoked Fire_invoked Fire_queue evAgeSubscribe_def
        gxSubject_new_def registered_def)
  have h3: "MakeDelegate 10 1 \<in> set (mCallbacks (events
        (evAgeSubscribe 3 (MakeDelegate 10 1) (gxSubject_new () (0::int))) 3))"
    by (simp add: evAgeSubscribe_def gxSubject_new_def registered_def)
  have h4: "(76::int) \<noteq> 12"
    by simp
  have h5: "map (\<lambda>c. gxCall 3 c (12::int)) (mCallbacks (events
        (evAgeSubscribe 3 (MakeDelegate 10 1) (gxSubject_new () (0::int))) 3)) =
      [gxCall 3 (MakeDelegate 10 1) 12]"
    by (simp add: evAgeSubscribe_def gxSubject_new_def registered_def)
  from h1 h2 h3 h4 run show ?thesis
    using queued_fires_coalesce [OF h1 h2, where ?v1.0 = 76 and ?v2.0 = 12]
    unfolding Let_def h5 by blast
qed

text \<open>
  C6. In the mode \<open>queue\<close>, after any sequence of calls \<open>Fire( aEvent, v )\<close>,
  \<open>ResumeEvents()\<close> fires the queued events one after another in the order in which
  they were first put on the queue (the events queued before the sequence, then the
  events of the sequence at their first firing), each event once, to all its callbacks
  and with the argument cached last; afterwards the queue is empty and the mode is \<open>on\<close>.
\<close>

theorem resume_drains_in_order:
  assumes "mFiringMode s = queue" and "queue_inv s"
  shows "let s1 = fire_each fs s; s2 = ResumeEvents s1 in
           invoked s2 = invoked s @
             concat (map (\<lambda>e. map (\<lambda>c. gxCall e c (m1 (events s1 e))) (mCallbacks (events s e)))
               (first_enqueued (mEventQueue s @ map fst fs)))
           \<and> distinct (first_enqueued (mEventQueue s @ map fst fs))
           \<and> (\<forall>e. m1 (events s1 e) =
                 (case last_fired fs e of Some v \<Rightarrow> v | None \<Rightarrow> m1 (events s e)))
           \<and> mEventQueue s2 = [] \<and> mFiringMode s2 = on"
proof -
  define s1 where "s1 = fire_each fs s"
  have mode: "mFiringMode s1 = queue"
    using assms(1) by (simp add: s1_def)
  have "distinct (mEventQueue s)"
    using assms(2) by (simp add: queue_inv_def)
  then have q: "mEventQueue s1 = first_enqueued (mEventQueue s @ map fst fs)"
    using assms(1) by (simp add: s1_def fire_each_queue first_enqueued_append)
  have inv1: "invoked s1 = invoked s"
    using assms(1) by (simp add: s1_def fire_each_invoked_suspended)
  have cbs: "mCallbacks (events s1 e) = mCallbacks (events s e)" for e
    by (simp add: s1_def)
  have calls: "invoked (ResumeEvents s1) = invoked s @
      concat (map (\<lambda>e. map (\<lambda>c. gxCall e c (m1 (events s1 e))) (mCallbacks (events s e)))
        (first_enqueued (mEventQueue s @ map fst fs)))"
    by (simp add: ResumeEvents_invoked mode inv1 q cbs)
  have vals: "m1 (events s1 e) = (case last_fired fs e of Some v \<Rightarrow> v | None \<Rightarrow> m1 (events s e))" for e
    by (simp add: s1_def fire_each_m1)
  have fin: "mEventQueue (ResumeEvents s1) = []" "mFiringMode (ResumeEvents s1) = on"
    by (simp_all add: mode)
  from calls vals fin show ?thesis
    unfolding Let_def s1_def [symmetric] by (intro conjI allI) simp_all
qed

theorem resume_drains_in_order_witness:
  "mFiringMode (SuspendEvents True (evAgeSubscribe 4 (MakeDelegate 20 2)
       (evAgeSubscribe 3 (MakeDelegate 10 1) (gxSubject_new () (0::int))))) = queue
   \<and> queue_inv (SuspendEvents True (evAgeSubscribe 4 (MakeDelegate 20 2)
       (evAgeSubscribe 3 (MakeDelegate 10 1) (gxSubject_new () (0::int)))))
   \<and> invoked (ResumeEvents (fire_each [(3, 76), (4, 1), (3, 12)]
       (SuspendEvents True (evAgeSubscribe 4 (MakeDelegate 20 2)
         (evAgeSubscribe 3 (MakeDelegate 10 1) (gxSubject_new () (0::int))))))) =
      [gxCall 3 (MakeDelegate 10 1) 12, gxCall 4 (MakeDelegate 20 2) 1]
   \<and> mEventQueue (ResumeEvents (fire_each [(3, 76), (4, 1), (3, 12)]
       (SuspendEvents True (evAgeSubscribe 4 (MakeDelegate 20 2)
         (evAgeSubscribe 3 (MakeDelegate 10 1) (gxSubject_new () (0::int))))))) = []
   \<and> mFiringMode (ResumeEvents (fire_each [(3, 76), (4, 1), (3, 12)]
       (SuspendEvents True (evAgeSubscribe 4 (MakeDelegate 20 2)
         (evAgeSubscribe 3 (MakeDelegate 10 1) (gxSubject_new () (0::int))))))) = on"
proof -
  define s where "s = SuspendEvents True (evAgeSubscribe 4 (MakeDelegate 20 2)
       (evAgeSubscribe 3 (MakeDelegate 10 1) (gxSubject_new () (0::int))))"
  have h1: "mFiringMode s = queue"
    by (simp add: s_def)
  have h2: "queue_inv s"
    by (simp add: s_def queue_inv_def evAgeSubscribe_def gxSubject_new_def)
  have q: "mEventQueue s = []" "invoked s = []"
    by (simp_all add: s_def evAgeSubscribe_def gxSubject_new_def)
  have cb: "mCallbacks (events s 3) = [MakeDelegate 10 1]" "mCallbacks (events s 4) = [MakeDelegate 20 2]"
    by (simp_all add: s_def evAgeSubscribe_def gxSubject_new_def registered_def)
  have v: "m1 (events (fire_each [(3, 76), (4, 1), (3, 12)] s) 3) = 12"
      "m1 (events (fire_each [(3, 76), (4, 1), (3, 12)] s) 4) = 1"
    by simp_all
  show ?thesis
    using resume_drains_in_order [OF h1 h2, of "[(3, 76), (4, 1), (3, 12)]"] h1 h2
    unfolding Let_def s_def [symmetric] by (simp add: q cb v)
qed

text \<open>
  C8, as claimed: after \<open>Fire( aEvent, v )\<close> in the mode \<open>off\<close>, a later
  \<open>ResumeEvents()\<close> delivers nothing for the event unless the event was fired again
  while events were queued. It fails: subscribing to a bound event goes through
  \<open>gxSubject::Fire\<close> too, and in the mode \<open>queue\<close> that puts the event on the queue.
  Below, observer 10 is registered on the bound event 5, the firing of \<open>''Daisy!''\<close> is
  dropped, events are then queued and observer 20 subscribes; nothing is fired, yet
  resuming delivers event 5 to both observers, with the value of the getter.
\<close>

theorem fire_dropped_counterexample:
  "mFiringMode (SuspendEvents False
       (evNameSubscribe id 5 (MakeDelegate 10 1) (gxSubject_new ''Crazy!'' ''''))) = off
   \<and> calls_of 5 (invoked_since
        (run [OpSuspendEvents True, OpSubscribeBound id 5 (MakeDelegate 20 2)]
          (Fire 5 ''Daisy!'' (SuspendEvents False
            (evNameSubscribe id 5 (MakeDelegate 10 1) (gxSubject_new ''Crazy!'' '''')))))
        (ResumeEvents
          (run [OpSuspendEvents True, OpSubscribeBound id 5 (MakeDelegate 20 2)]
            (Fire 5 ''Daisy!'' (SuspendEvents False
              (evNameSubscribe id 5 (MakeDelegate 10 1) (gxSubject_new ''Crazy!'' ''''))))))) =
      [gxCall 5 (MakeDelegate 10 1) ''Crazy!'', gxCall 5 (MakeDelegate 20 2) ''Crazy!'']"
  by (simp add: run_def calls_of_def invoked_since_def ResumeEvents_invoked Fire_invoked
      Fire_queue evNameSubscribe_invoked evNameSubscribe_queue gxSubject_new_def registered_def
      MakeDelegate_def)

text \<open>
  C8, amended. In the mode \<open>off\<close>, \<open>Fire( aEvent, v )\<close> caches the argument, leaves
  the queue as it is and invokes no handler, and \<open>ResumeEvents()\<close> right after it
  invokes no handler. Whatever the client calls afterwards, a later \<open>ResumeEvents()\<close>
  makes no invocation for the event, unless one of those calls reached
  \<open>gxSubject::Fire\<close> for the event while the mode was \<open>queue\<close>: the event was fired
  again, with or without arguments, or an observer subscribed to it as a bound event.
\<close>

theorem fire_dropped:
  assumes "mFiringMode s = off" and "queue_inv s"
    and "\<not> queued_by e ops (Fire e v s)"
  shows "m1 (events (Fire e v s) e) = v
         \<and> mEventQueue (Fire e v s) = mEventQueue s
         \<and> invoked (Fire e v s) = invoked s
         \<and> invoked (ResumeEvents (Fire e v s)) = invoked s
         \<and> calls_of e (invoked_since (run ops (Fire e v s))
              (ResumeEvents (run ops (Fire e v s)))) = []"
proof -
  have empty: "mEventQueue s = []"
    using assms(1,2) by (auto simp: queue_inv_def)
  have first: "m1 (events (Fire e v s) e) = v" "mEventQueue (Fire e v s) = mEventQueue s"
      "invoked (Fire e v s) = invoked s" "invoked (ResumeEvents (Fire e v s)) = invoked s"
    using assms(1) by (simp_all add: Fire_queue Fire_invoked ResumeEvents_invoked)
  have "queue_inv (Fire e v s)"
    using assms(2) queue_inv_exec [of s "OpFire e v"] by simp
  then have inv: "queue_inv (run ops (Fire e v s))"
    by (rule queue_inv_run)
  have "e \<notin> set (mEventQueue (Fire e v s))"
    by (simp add: first(2) empty)
  then have "e \<notin> set (mEventQueue (run ops (Fire e v s)))"
    using assms(3) by (rule not_queued_run)
  with inv have "calls_of e (invoked_since (run ops (Fire e v s))
      (ResumeEvents (run ops (Fire e v s)))) = []"
    by (rule ResumeEvents_not_queued)
  with first show ?thesis by simp
qed

theorem fire_dropped_witness:
  "mFiringMode (SuspendEvents False (evAgeSubscribe 4 (MakeDelegate 10 3)
       (evNameSubscribe id 5 (MakeDelegate 10 1) (gxSubject_new ''Crazy!'' '''')))) = off
   \<and> queue_inv (SuspendEvents False (evAgeSubscribe 4 (MakeDelegate 10 3)
       (evNameSubscribe id 5 (MakeDelegate 10 1) (gxSubject_new ''Crazy!'' ''''))))
   \<and> \<not> queued_by 5 [OpSuspendEvents True, OpFire 4 ''Lola'', OpSubscribe 5 (MakeDelegate 20 2)]
         (Fire 5 ''Daisy!'' (SuspendEvents False (evAgeSubscribe 4 (MakeDelegate 10 3)
           (evNameSubscribe id 5 (MakeDelegate 10 1) (gxSubject_new ''Crazy!'' '''')))))
   \<and> m1 (events (Fire 5 ''Daisy!'' (SuspendEvents False (evAgeSubscribe 4 (MakeDelegate 10 3)
        (evNameSubscribe id 5 (MakeDelegate 10 1) (gxSubject_new ''Crazy!'' ''''))))) 5) = ''Daisy!''
   \<and> invoked_since
        (run [OpSuspendEvents True, OpFire 4 ''Lola'', OpSubscribe 5 (MakeDelegate 20 2)]
          (Fire 5 ''Daisy!'' (SuspendEvents False (evAgeSubscribe 4 (MakeDelegate 10 3)
            (evNameSubscribe id 5 (MakeDelegate 10 1) (gxSubject_new ''Crazy!'' ''''))))))
        (ResumeEvents
          (run [OpSuspendEvents True, OpFire 4 ''Lola'', OpSubscribe 5 (MakeDelegate 20 2)]
            (Fire 5 ''Daisy!'' (SuspendEvents False (evAgeSubscribe 4 (MakeDelegate 10 3)
              (evNameSubscribe id 5 (MakeDelegate 10 1) (gxSubject_new ''Crazy!'' ''''))))))) =
      [gxCall 4 (MakeDelegate 10 3) ''Lola'']
   \<and> calls_of 5 (invoked_since
        (run [OpSuspendEvents True, OpFire 4 ''Lola'', OpSubscribe 5 (MakeDelegate 20 2)]
          (Fire 5 ''Daisy!'' (SuspendEvents False (evAgeSubscribe 4 (MakeDelegate 10 3)
            (evNameSubscribe id 5 (MakeDelegate 10 1) (gxSubject_new ''Crazy!'' ''''))))))
        (ResumeEvents
          (run [OpSuspendEvents True, OpFire 4 ''Lola'', OpSubscribe 5 (MakeDelegate 20 2)]
            (Fire 5 ''Daisy!'' (SuspendEvents False (evAgeSubscribe 4 (MakeDelegate 10 3)
              (evNameSubscribe id 5 (MakeDelegate 10 1) (gxSubject_new ''Crazy!'' '''')))))))) = []"
proof -
  define s where "s = SuspendEvents False (evAgeSubscribe 4 (MakeDelegate 10 3)
       (evNameSubscribe id 5 (MakeDelegate 10 1) (gxSubject_new ''Crazy!'' '''')))"
  define ops :: "(string, string) gxOp list"
    where "ops = [OpSuspendEvents True, OpFire 4 ''Lola'', OpSubscribe 5 (MakeDelegate 20 2)]"
  have h1: "mFiringMode s = off"
    by (simp add: s_def)
  have h2: "queue_inv s"
    by (simp add: s_def queue_inv_def)
  have h3: "\<not> queued_by 5 ops (Fire 5 ''Daisy!'' s)"
    by (simp add: ops_def h1)
  have r: "invoked_since (run ops (Fire 5 ''Daisy!'' s)) (ResumeEvents (run ops (Fire 5 ''Daisy!'' s))) =
      [gxCall 4 (MakeDelegate 10 3) ''Lola'']"
    by (simp add: ops_def s_def run_def invoked_since_def ResumeEvents_invoked Fire_invoked
        Fire_queue evAgeSubscribe_def evNameSubscribe_invoked evNameSubscribe_queue
        gxSubject_new_def registered_def MakeDelegate_def)
  show ?thesis
    using fire_dropped [OF h1 h2 h3] h1 h2 h3 r
    unfolding s_def [symmetric] ops_def [symmetric] by simp
qed

end
